theory Spec2Isabelle
  imports Main "HOL-Library.Multiset"
begin

unbundle bit_operations_syntax

section \<open>Graphs and their incidence structure\<close>

text \<open>
  A chain is given as a finite graph. The graphs the program reads come from graph6
  strings, so the vertices are \<open>0, ..., order - 1\<close>; an edge is a pair of endpoints.
\<close>

record graph =
  order :: nat
  edges :: "(nat \<times> nat) list"

type_synonym matrix = "int list list"

text \<open>
  Modelled from the spec: \<open>my_graph.incidence_matrix()\<close> belongs to the graph library the
  source imports. One row per vertex, one column per edge; the entry counts how often
  the vertex is an endpoint of the edge (1 at both endpoints, 2 for a loop).
\<close>

definition incidence_matrix :: "graph \<Rightarrow> matrix" where
  "incidence_matrix g =
     map (\<lambda>v. map (\<lambda>(a, b). (if a = v then 1 else 0) + (if b = v then 1 else 0)) (edges g))
       [0..<order g]"

definition ncols :: "matrix \<Rightarrow> nat" where
  "ncols A = (case A of [] \<Rightarrow> 0 | r # _ \<Rightarrow> length r)"

section \<open>Binary matroids\<close>

text \<open>
  A column over the two-element field is kept as the bit mask of its rows (bit \<open>i\<close> is
  the entry of row \<open>i\<close> modulo 2), so that adding two columns is \<open>XOR\<close>.
\<close>

fun pack :: "bool list \<Rightarrow> nat" where
  "pack [] = 0"
| "pack (b # bs) = (if b then 1 else 0) + 2 * pack bs"

definition gf2_column :: "matrix \<Rightarrow> nat \<Rightarrow> nat" where
  "gf2_column A j = pack (map (\<lambda>row. odd (row ! j)) A)"

text \<open>
  Modelled from the spec: the rank of a set of columns is their rank over the
  two-element field. \<open>span vs\<close> lists every sum of a subfamily of \<open>vs\<close>; a column adds one
  to the rank exactly when it is not a sum of the columns after it.
\<close>

fun span :: "nat list \<Rightarrow> nat list" where
  "span [] = [0]"
| "span (v # vs) = span vs @ map (\<lambda>x. v XOR x) (span vs)"

fun rank_cols :: "nat list \<Rightarrow> nat" where
  "rank_cols [] = 0"
| "rank_cols (v # vs) = (if v \<in> set (span vs) then rank_cols vs else Suc (rank_cols vs))"

text \<open>
  A matroid is its groundset (the element ids, in order) with its rank function on
  subsets of the groundset; a subset is a duplicate-free list.
\<close>

record matroid =
  groundset :: "nat list"
  rank_of :: "nat list \<Rightarrow> int"

text \<open>
  Modelled from the spec: \<open>Matroid(matrix, ring=GF(2))\<close>. The groundset is the column
  indices, the rank of a subset the rank of its columns over the two-element field.
\<close>

definition Matroid :: "matrix \<Rightarrow> matroid" where
  "Matroid A = \<lparr>groundset = [0..<ncols A],
                rank_of = (\<lambda>X. int (rank_cols (map (gf2_column A) X)))\<rparr>"

text \<open>\<open>M.rank()\<close>: the rank of the whole groundset.\<close>

definition rank :: "matroid \<Rightarrow> int" where
  "rank M = rank_of M (groundset M)"

definition without :: "nat list \<Rightarrow> nat list \<Rightarrow> nat list" where
  "without E X = filter (\<lambda>e. e \<notin> set X) E"

text \<open>
  Modelled from the spec: \<open>M.dual()\<close> has the groundset of \<open>M\<close> and the rank function
  \<open>rank(S) = |S| - rank(groundset) + rank(groundset \ S)\<close>.
\<close>

definition dual :: "matroid \<Rightarrow> matroid" where
  "dual M = \<lparr>groundset = groundset M,
             rank_of = (\<lambda>X. int (length X) - rank_of M (groundset M)
                              + rank_of M (without (groundset M) X))\<rparr>"

text \<open>
  Modelled from the spec: \<open>M.delete(X)\<close> is a new matroid on the complement of \<open>X\<close> whose
  rank function is the parent's, restricted to that complement.
\<close>

definition delete :: "matroid \<Rightarrow> nat list \<Rightarrow> matroid" where
  "delete M X = \<lparr>groundset = without (groundset M) X, rank_of = rank_of M\<rparr>"

text \<open>
  Modelled from the spec: a subset is closed (a flat) iff adding any element outside it
  strictly increases the rank; \<open>M.flats(r)\<close> is every flat of rank \<open>r\<close>, each once. The
  order of the enumeration is not specified by the library; the model takes the order of
  \<open>subseqs\<close>.
\<close>

definition is_flat :: "matroid \<Rightarrow> nat list \<Rightarrow> bool" where
  "is_flat M F =
     list_all (\<lambda>e. e \<in> set F \<or> rank_of M F < rank_of M (F @ [e])) (groundset M)"

definition flats :: "matroid \<Rightarrow> int \<Rightarrow> nat list list" where
  "flats M r = filter (\<lambda>F. rank_of M F = r \<and> is_flat M F) (subseqs (groundset M))"

text \<open>
  Modelled from the spec: \<open>M.is_connected()\<close> holds iff the groundset has no partition
  into two non-empty parts \<open>A\<close>, \<open>B\<close> with \<open>rank(A) + rank(B) = rank(A \<union> B)\<close>. The library
  decides it by counting the components of the matroid and answers true for exactly one
  component; the matroid on the empty groundset has none and is therefore not connected,
  which is the first conjunct.
\<close>

definition is_connected :: "matroid \<Rightarrow> bool" where
  "is_connected M =
     (let E = groundset M in
      E \<noteq> [] \<and>
      \<not> list_ex (\<lambda>A. A \<noteq> [] \<and> A \<noteq> E \<and>
                      rank_of M A + rank_of M (without E A) = rank_of M E)
          (subseqs E))"

section \<open>The feasibility test\<close>

definition mobility :: "int \<Rightarrow> int \<Rightarrow> int \<Rightarrow> int" where
  "mobility rnk joints screw_system = screw_system * (rnk - joints) + joints"

text \<open>
  The inner loop \<open>for co_flat in co_flats\<close>: \<open>Some False\<close> is the early \<open>return False\<close>,
  \<open>None\<close> is the loop running to its end.
\<close>

fun co_flats_loop :: "matroid \<Rightarrow> int \<Rightarrow> nat list list \<Rightarrow> bool option" where
  "co_flats_loop my_matroid screw_system [] = None"
| "co_flats_loop my_matroid screw_system (co_flat # rest) =
     (let sub_matroid = delete my_matroid co_flat in
      if is_connected sub_matroid then
        (let sub_rank = rank sub_matroid;
             sub_joints = int (length (groundset sub_matroid));
             sub_mobility = mobility sub_rank sub_joints screw_system
         in if sub_mobility \<le> 0 \<and> sub_joints < int (length (groundset my_matroid))
            then Some False
            else co_flats_loop my_matroid screw_system rest)
      else co_flats_loop my_matroid screw_system rest)"

text \<open>
  The outer loop \<open>for co_rank in range(0, my_dual_rank + 1)\<close>; \<open>co_flats_of\<close> is the
  enumeration \<open>my_dual_matroid.flats\<close>. Falling out of the loop is \<open>return True\<close>.
\<close>

fun co_rank_loop :: "matroid \<Rightarrow> (int \<Rightarrow> nat list list) \<Rightarrow> int \<Rightarrow> int list \<Rightarrow> bool" where
  "co_rank_loop my_matroid co_flats_of screw_system [] = True"
| "co_rank_loop my_matroid co_flats_of screw_system (co_rank # rest) =
     (case co_flats_loop my_matroid screw_system (co_flats_of co_rank) of
        Some b \<Rightarrow> b
      | None \<Rightarrow> co_rank_loop my_matroid co_flats_of screw_system rest)"

definition no_rigid_subchains :: "graph \<Rightarrow> int \<Rightarrow> bool" where
  "no_rigid_subchains my_graph screw_system =
     (let my_matroid = Matroid (incidence_matrix my_graph);
          my_dual_matroid = dual my_matroid;
          my_dual_rank = rank my_dual_matroid
      in co_rank_loop my_matroid (flats my_dual_matroid) screw_system [0..my_dual_rank])"

text \<open>
  The test of the inner loop on one candidate: the sub-matroid left by deleting the
  co-flat is connected, its mobility is not positive and it is a proper part of the
  chain.
\<close>

definition disqualifies :: "matroid \<Rightarrow> int \<Rightarrow> nat list \<Rightarrow> bool" where
  "disqualifies M screw_system F =
     (is_connected (delete M F)
      \<and> mobility (rank (delete M F)) (int (length (groundset (delete M F)))) screw_system \<le> 0
      \<and> int (length (groundset (delete M F))) < int (length (groundset M)))"

text \<open>
  The coloops of a matroid: the elements whose removal lowers the rank of the groundset
  (for the matroid of a graph, its bridges).
\<close>

definition coloops :: "matroid \<Rightarrow> nat list" where
  "coloops M =
     filter (\<lambda>e. rank_of M (without (groundset M) [e]) < rank_of M (groundset M)) (groundset M)"

section \<open>The classifier\<close>

datatype py_error = IndexError | ValueError | RuntimeError

text \<open>
  Modelled from the spec: \<open>my_graph.degree_sequence()\<close> is the list of the vertex
  degrees, largest first; a loop counts twice.
\<close>

definition degree :: "graph \<Rightarrow> nat \<Rightarrow> nat" where
  "degree g v =
     length (filter (\<lambda>(a, b). a = v) (edges g)) + length (filter (\<lambda>(a, b). b = v) (edges g))"

definition degree_sequence :: "graph \<Rightarrow> nat list" where
  "degree_sequence g = rev (sort (map (degree g) [0..<order g]))"

text \<open>Python's \<open>max\<close> raises \<open>ValueError\<close> on an empty sequence.\<close>

fun py_max :: "nat list \<Rightarrow> py_error + nat" where
  "py_max [] = Inl ValueError"
| "py_max (x # xs) = Inr (fold max xs x)"

text \<open>
  \<open>partition = [graph_deg_sequence.count(i) for i in range(2, max(graph_deg_sequence) + 1)]\<close>
\<close>

definition graph_partition :: "nat list \<Rightarrow> py_error + nat list" where
  "graph_partition graph_deg_sequence =
     (case py_max graph_deg_sequence of
        Inl e \<Rightarrow> Inl e
      | Inr m \<Rightarrow> Inr (map (\<lambda>i. count_list graph_deg_sequence i) [2..<m + 1]))"

text \<open>Python's \<open>str\<close> of a non-negative integer and of a list of them.\<close>

function str_nat :: "nat \<Rightarrow> string" where
  "str_nat n =
     (if n < 10 then [''0123456789'' ! n]
      else str_nat (n div 10) @ [''0123456789'' ! (n mod 10)])"
  by pat_completeness auto
termination
  by (relation "measure id") auto

fun join_comma :: "string list \<Rightarrow> string" where
  "join_comma [] = []"
| "join_comma [s] = s"
| "join_comma (s # t # ss) = s @ '', '' @ join_comma (t # ss)"

definition str_list :: "nat list \<Rightarrow> string" where
  "str_list xs = ''['' @ join_comma (map str_nat xs) @ '']''"

text \<open>
  \<open>number_assur\<close>: the number of orbits of the automorphism group, as a string. The
  orbits come from the graph library and are a parameter here; \<open>vertex[0]\<close> raises
  \<open>IndexError\<close> on an empty orbit.
\<close>

definition number_assur :: "(graph \<Rightarrow> nat list list) \<Rightarrow> graph \<Rightarrow> py_error + string" where
  "number_assur automorphism_orbits my_graph =
     (let graph_orbits = automorphism_orbits my_graph in
      if [] \<in> set graph_orbits then Inl IndexError
      else (let orbit_candidates = map hd graph_orbits;
                number_orbits = length orbit_candidates
            in Inr (str_nat number_orbits)))"

text \<open>
  \<open>g6_string = line.replace(line[-1], "")\<close>: every occurrence of the last character of
  the line is removed; \<open>line[-1]\<close> raises \<open>IndexError\<close> on an empty line.
\<close>

definition g6_string_of :: "string \<Rightarrow> py_error + string" where
  "g6_string_of line =
     (if line = [] then Inl IndexError else Inr (filter (\<lambda>c. c \<noteq> last line) line))"

text \<open>
  The output files are the sequence of appends made to them: the path and the text
  appended. An exception leaves the appends made so far and ends the run, so a run
  returns the appends with the exception raised, if any.
\<close>

type_synonym outfiles = "(string \<times> string) list"

text \<open>
  The body of the loop over the lines of the input file. The graph6 decoder is the
  graph library's and is a parameter.
\<close>

definition line_body ::
  "(string \<Rightarrow> py_error + graph) \<Rightarrow> (graph \<Rightarrow> nat list list) \<Rightarrow> string \<Rightarrow> outfiles \<Rightarrow> string
     \<Rightarrow> outfiles \<times> py_error option" where
  "line_body from_graph6 automorphism_orbits graph_write out line =
     (case g6_string_of line of
        Inl e \<Rightarrow> (out, Some e)
      | Inr g6_string \<Rightarrow>
          (case from_graph6 g6_string of
             Inl e \<Rightarrow> (out, Some e)
           | Inr my_graph \<Rightarrow>
               (case graph_partition (degree_sequence my_graph) of
                  Inl e \<Rightarrow> (out, Some e)
                | Inr partition' \<Rightarrow>
                    if no_rigid_subchains my_graph 3 then
                      (let out1 = out @ [(graph_write @ ''baranov_'' @ str_list partition',
                                          g6_string @ ''\<newline>'')]
                       in case number_assur automorphism_orbits my_graph of
                            Inl e \<Rightarrow> (out1, Some e)
                          | Inr assur_per_graph \<Rightarrow>
                              (out1 @ [(graph_write @ ''assur_'' @ str_list partition',
                                        assur_per_graph @ ''\<newline>'')], None))
                    else (out, None))))"

fun graphs_from_txt ::
  "(string \<Rightarrow> py_error + graph) \<Rightarrow> (graph \<Rightarrow> nat list list) \<Rightarrow> string list \<Rightarrow> string \<Rightarrow> outfiles
     \<Rightarrow> outfiles \<times> py_error option" where
  "graphs_from_txt from_graph6 automorphism_orbits [] graph_write out = (out, None)"
| "graphs_from_txt from_graph6 automorphism_orbits (line # infile) graph_write out =
     (case line_body from_graph6 automorphism_orbits graph_write out line of
        (out', Some e) \<Rightarrow> (out', Some e)
      | (out', None) \<Rightarrow> graphs_from_txt from_graph6 automorphism_orbits infile graph_write out')"

text \<open>A relabelling of a graph: the vertices are renamed by \<open>f\<close>.\<close>

definition relabel :: "(nat \<Rightarrow> nat) \<Rightarrow> graph \<Rightarrow> graph" where
  "relabel f g = \<lparr>order = order g, edges = map (\<lambda>(a, b). (f a, f b)) (edges g)\<rparr>"

section \<open>Example chains\<close>

text \<open>The four-bar linkage: a cycle on four vertices.\<close>

definition four_bar :: graph where
  "four_bar = \<lparr>order = 4, edges = [(0, 1), (0, 3), (1, 2), (2, 3)]\<rparr>"

text \<open>A triangle with a pendant edge.\<close>

definition tri_pendant :: graph where
  "tri_pendant = \<lparr>order = 4, edges = [(0, 1), (0, 2), (1, 2), (2, 3)]\<rparr>"

text \<open>The complete graph on four vertices without one edge: degrees 3, 3, 2, 2.\<close>

definition diamond :: graph where
  "diamond = \<lparr>order = 4, edges = [(0, 1), (0, 2), (0, 3), (1, 2), (1, 3)]\<rparr>"

text \<open>The graph without vertices.\<close>

definition empty_graph :: graph where
  "empty_graph = \<lparr>order = 0, edges = []\<rparr>"

text \<open>The complete graph on the vertices 0, 1, 2, 4 with the isolated vertex 3.\<close>

definition k4_isolated :: graph where
  "k4_isolated = \<lparr>order = 5, edges = [(0, 1), (0, 2), (0, 4), (1, 2), (1, 4), (2, 4)]\<rparr>"

text \<open>
  A decoder for the examples: it knows the graph6 strings of the four graphs above and
  fails on every other string.
\<close>

definition sample_graph6 :: "string \<Rightarrow> py_error + graph" where
  "sample_graph6 s =
     (if s = ''Cl'' then Inr four_bar
      else if s = ''C}'' then Inr diamond
      else if s = ''?'' then Inr empty_graph
      else if s = ''Dww'' then Inr k4_isolated
      else Inl RuntimeError)"

section \<open>Rank over the two-element field\<close>

lemma zero_in_span: "0 \<in> set (span vs)"
  by (induction vs) auto

lemma span_closed:
  "x \<in> set (span vs) \<Longrightarrow> y \<in> set (span vs) \<Longrightarrow> x XOR y \<in> set (span vs)"
proof (induction vs arbitrary: x y)
  case Nil
  then show ?case by simp
next
  case (Cons v vs)
  let ?S = "set (span vs)"
  from Cons.prems have x: "x \<in> ?S \<or> (\<exists>x' \<in> ?S. x = v XOR x')"
    and y: "y \<in> ?S \<or> (\<exists>y' \<in> ?S. y = v XOR y')" by auto
  from x y consider
      (a) "x \<in> ?S" "y \<in> ?S"
    | (b) x' where "x' \<in> ?S" "x = v XOR x'" "y \<in> ?S"
    | (c) y' where "x \<in> ?S" "y' \<in> ?S" "y = v XOR y'"
    | (d) x' y' where "x' \<in> ?S" "x = v XOR x'" "y' \<in> ?S" "y = v XOR y'"
    by blast
  then show ?case
  proof cases
    case a
    then show ?thesis using Cons.IH by simp
  next
    case b
    then have "x' XOR y \<in> ?S" using Cons.IH by simp
    moreover have "x XOR y = v XOR (x' XOR y)" using b by (simp add: xor.assoc)
    ultimately show ?thesis by simp
  next
    case c
    then have "x XOR y' \<in> ?S" using Cons.IH by simp
    moreover have "x XOR y = v XOR (x XOR y')" using c by (simp add: xor.left_commute)
    ultimately show ?thesis by simp
  next
    case d
    then have "x' XOR y' \<in> ?S" using Cons.IH by simp
    moreover have "x XOR y = x' XOR y'"
      using d by (metis xor.assoc xor.left_commute xor_self_eq xor.comm_neutral xor.commute)
    ultimately show ?thesis by simp
  qed
qed

lemma in_span_self: "v \<in> set vs \<Longrightarrow> v \<in> set (span vs)"
proof (induction vs)
  case Nil
  then show ?case by simp
next
  case (Cons w ws)
  show ?case
  proof (cases "v = w")
    case True
    have "w XOR 0 \<in> (\<lambda>x. w XOR x) ` set (span ws)" using zero_in_span by blast
    then show ?thesis using True by simp
  next
    case False
    then show ?thesis using Cons by simp
  qed
qed

lemma span_mono:
  assumes "set vs \<subseteq> set ws"
  shows "set (span vs) \<subseteq> set (span ws)"
  using assms
proof (induction vs)
  case Nil
  then show ?case by (simp add: zero_in_span)
next
  case (Cons v vs)
  then have IH: "set (span vs) \<subseteq> set (span ws)" and v: "v \<in> set (span ws)"
    by (auto intro: in_span_self)
  show ?case
  proof
    fix x assume "x \<in> set (span (v # vs))"
    then consider "x \<in> set (span vs)" | x' where "x' \<in> set (span vs)" "x = v XOR x'" by auto
    then show "x \<in> set (span ws)"
    proof cases
      case 1
      then show ?thesis using IH by blast
    next
      case 2
      then show ?thesis using IH v span_closed by blast
    qed
  qed
qed

lemma span_cong: "set vs = set ws \<Longrightarrow> set (span vs) = set (span ws)"
  by (simp add: span_mono subset_antisym)

lemma card_span: "card (set (span vs)) = 2 ^ rank_cols vs"
proof (induction vs)
  case Nil
  then show ?case by simp
next
  case (Cons v vs)
  let ?S = "set (span vs)"
  let ?T = "(\<lambda>x. v XOR x) ` ?S"
  have set_eq: "set (span (v # vs)) = ?S \<union> ?T" by simp
  show ?case
  proof (cases "v \<in> ?S")
    case True
    then have "?T \<subseteq> ?S" using span_closed by blast
    then have "?S \<union> ?T = ?S" by blast
    then show ?thesis using True Cons.IH set_eq by simp
  next
    case False
    have disj: "?S \<inter> ?T = {}"
    proof (rule ccontr)
      assume "?S \<inter> ?T \<noteq> {}"
      then obtain x y where xy: "x \<in> ?S" "y \<in> ?S" "y = v XOR x" by blast
      then have "y XOR x \<in> ?S" using span_closed by blast
      moreover have "y XOR x = v" using xy by (simp add: xor.assoc)
      ultimately show False using False by simp
    qed
    have "inj_on (\<lambda>x. v XOR x) ?S"
      by (rule inj_onI) (metis xor.left_commute xor_self_eq xor.comm_neutral)
    then have "card ?T = card ?S" by (rule card_image)
    then have "card (?S \<union> ?T) = 2 * card ?S"
      using disj by (simp add: card_Un_disjoint)
    then show ?thesis using False Cons.IH set_eq by simp
  qed
qed

lemma rank_cols_mono:
  assumes "set vs \<subseteq> set ws"
  shows "rank_cols vs \<le> rank_cols ws"
proof -
  have "card (set (span vs)) \<le> card (set (span ws))"
    using span_mono [OF assms] by (simp add: card_mono)
  then have "(2::nat) ^ rank_cols vs \<le> 2 ^ rank_cols ws" by (simp add: card_span)
  then show ?thesis by simp
qed

lemma rank_cols_cong: "set vs = set ws \<Longrightarrow> rank_cols vs = rank_cols ws"
  by (simp add: rank_cols_mono order_antisym)

lemma rank_cols_append_le: "rank_cols (us @ vs) \<le> length us + rank_cols vs"
  by (induction us) auto

lemma rank_cols_le_length: "rank_cols vs \<le> length vs"
  using rank_cols_append_le [of vs "[]"] by simp

lemma rank_cols_union_le:
  assumes "set ws \<subseteq> set us \<union> set vs"
  shows "rank_cols ws \<le> length us + rank_cols vs"
proof -
  have "rank_cols ws \<le> rank_cols (us @ vs)" using assms by (intro rank_cols_mono) simp
  then show ?thesis using rank_cols_append_le [of us vs] by linarith
qed

section \<open>Matroids of a matrix and their duals\<close>

lemma groundset_Matroid [simp]: "groundset (Matroid A) = [0..<ncols A]"
  by (simp add: Matroid_def)

lemma rank_of_Matroid [simp]:
  "rank_of (Matroid A) X = int (rank_cols (map (gf2_column A) X))"
  by (simp add: Matroid_def)

lemma groundset_dual [simp]: "groundset (dual M) = groundset M"
  by (simp add: dual_def)

lemma rank_of_dual:
  "rank_of (dual M) X =
     int (length X) - rank_of M (groundset M) + rank_of M (without (groundset M) X)"
  by (simp add: dual_def)

lemma without_Nil [simp]: "without E [] = E"
  by (simp add: without_def)

lemma set_without [simp]: "set (without E X) = set E - set X"
  by (auto simp: without_def)

lemma distinct_without: "distinct E \<Longrightarrow> distinct (without E X)"
  by (simp add: without_def)

lemma length_without:
  assumes "distinct X" "distinct Y" "set X \<subseteq> set Y"
  shows "length (without Y X) = length Y - length X"
proof -
  have "length (without Y X) = card (set Y - set X)"
    using assms(2) by (metis distinct_card distinct_without set_without)
  also have "\<dots> = card (set Y) - card (set X)"
    using assms(3) by (simp add: card_Diff_subset)
  finally show ?thesis using assms(1,2) by (simp add: distinct_card)
qed

lemma delete_Nil: "delete M [] = M"
  by (simp add: delete_def)

text \<open>The rank function of a binary matroid.\<close>

lemma rank_of_mono:
  "set X \<subseteq> set Y \<Longrightarrow> rank_of (Matroid A) X \<le> rank_of (Matroid A) Y"
  by (simp add: rank_cols_mono image_mono)

lemma rank_of_cong:
  "set X = set Y \<Longrightarrow> rank_of (Matroid A) X = rank_of (Matroid A) Y"
  by (simp add: rank_cols_cong)

lemma rank_of_union_le:
  assumes "set Z \<subseteq> set X \<union> set Y"
  shows "rank_of (Matroid A) Z \<le> int (length X) + rank_of (Matroid A) Y"
proof -
  have "set (map (gf2_column A) Z) \<subseteq> set (map (gf2_column A) X) \<union> set (map (gf2_column A) Y)"
    using assms by auto
  from rank_cols_union_le [OF this] show ?thesis by simp
qed

lemma rank_of_Nil: "rank_of (Matroid A) [] = 0"
  by simp

text \<open>The rank function of the dual.\<close>

lemma dual_rank_Nil: "rank_of (dual (Matroid A)) [] = 0"
  by (simp add: rank_of_dual)

lemma dual_rank_mono:
  assumes "distinct X" "distinct Y" "set X \<subseteq> set Y"
  shows "rank_of (dual (Matroid A)) X \<le> rank_of (dual (Matroid A)) Y"
proof -
  let ?E = "groundset (Matroid A)"
  have "set (without ?E X) \<subseteq> set (without Y X) \<union> set (without ?E Y)"
    by auto
  from rank_of_union_le [OF this]
  have "rank_of (Matroid A) (without ?E X)
          \<le> int (length (without Y X)) + rank_of (Matroid A) (without ?E Y)" .
  moreover have "int (length (without Y X)) = int (length Y) - int (length X)"
    using length_without [OF assms] assms
    by (metis card_mono distinct_card List.finite_set of_nat_diff)
  ultimately show ?thesis unfolding rank_of_dual by linarith
qed

lemma dual_rank_nonneg:
  assumes "distinct X"
  shows "0 \<le> rank_of (dual (Matroid A)) X"
  using dual_rank_mono [of "[]" X A] assms dual_rank_Nil [of A] by simp

section \<open>The flat of rank zero of the dual\<close>

lemma Nil_in_subseqs: "[] \<in> set (subseqs xs)"
  by (induction xs) (auto simp: Let_def)

lemma filter_in_subseqs: "filter P xs \<in> set (subseqs xs)"
  by (induction xs) (auto simp: Let_def)

lemma subseqs_subset: "F \<in> set (subseqs E) \<Longrightarrow> set F \<subseteq> set E"
  using subseqs_powset [of E] by blast

lemma subseqs_set_inj:
  assumes "distinct E" "F \<in> set (subseqs E)" "G \<in> set (subseqs E)" "set F = set G"
  shows "F = G"
proof -
  have "inj_on set (set (subseqs E))"
    using distinct_set_subseqs [OF assms(1)] by (simp add: distinct_map)
  then show ?thesis using assms(2-4) by (auto dest: inj_onD)
qed

lemma distinct_subseqs: "distinct E \<Longrightarrow> distinct (subseqs E)"
  using distinct_set_subseqs [of E] by (simp add: distinct_map)

lemma filter_eq_singleton:
  assumes "distinct xs" "c \<in> set xs" "\<And>x. x \<in> set xs \<Longrightarrow> P x \<longleftrightarrow> x = c"
  shows "filter P xs = [c]"
  using assms
proof (induction xs)
  case Nil
  then show ?case by simp
next
  case (Cons x xs)
  show ?case
  proof (cases "x = c")
    case True
    then have "c \<notin> set xs" using Cons.prems(1) by simp
    then have "filter P xs = []" using Cons.prems(3) by (auto simp: filter_empty_conv)
    then show ?thesis using True Cons.prems(3) by simp
  next
    case False
    then have "filter P xs = [c]" using Cons by auto
    then show ?thesis using False Cons.prems(3) by simp
  qed
qed

text \<open>Coloops.\<close>

lemma coloops_in_subseqs: "coloops M \<in> set (subseqs (groundset M))"
  by (simp add: coloops_def filter_in_subseqs)

lemma set_coloops:
  "set (coloops M) =
     {e \<in> set (groundset M). rank_of M (without (groundset M) [e]) < rank_of M (groundset M)}"
  by (simp add: coloops_def)

lemma coloop_not_in_span:
  assumes "e \<in> set (coloops (Matroid A))"
  shows "gf2_column A e \<notin> set (span (map (gf2_column A) (without [0..<ncols A] [e])))"
proof
  let ?c = "gf2_column A" and ?E = "[0..<ncols A]"
  assume in_span: "?c e \<in> set (span (map ?c (without ?E [e])))"
  have e: "e \<in> set ?E" and less: "rank_cols (map ?c (without ?E [e])) < rank_cols (map ?c ?E)"
    using assms by (auto simp: set_coloops)
  have "set (?c e # map ?c (without ?E [e])) = set (map ?c ?E)"
    using e by auto
  then have "rank_cols (?c e # map ?c (without ?E [e])) = rank_cols (map ?c ?E)"
    by (rule rank_cols_cong)
  then show False using in_span less by simp
qed

lemma rank_cols_coloops_append:
  assumes "distinct T" "set T \<subseteq> set (coloops (Matroid A))"
    and "set X \<subseteq> {0..<ncols A}" "set X \<inter> set T = {}"
  shows "rank_cols (map (gf2_column A) (T @ X)) = length T + rank_cols (map (gf2_column A) X)"
  using assms
proof (induction T)
  case Nil
  then show ?case by simp
next
  case (Cons t T)
  let ?c = "gf2_column A" and ?E = "[0..<ncols A]"
  have t: "t \<in> set (coloops (Matroid A))" using Cons.prems by simp
  have "set T \<subseteq> {0..<ncols A}" using Cons.prems(2) by (auto simp: set_coloops)
  then have "set (map ?c (T @ X)) \<subseteq> set (map ?c (without ?E [t]))"
    using Cons.prems by auto
  then have "set (span (map ?c (T @ X))) \<subseteq> set (span (map ?c (without ?E [t])))"
    by (rule span_mono)
  then have "?c t \<notin> set (span (map ?c (T @ X)))"
    using coloop_not_in_span [OF t] by blast
  moreover have "rank_cols (map ?c (T @ X)) = length T + rank_cols (map ?c X)"
    using Cons by auto
  ultimately show ?case by simp
qed

lemma distinct_coloops: "distinct (coloops (Matroid A))"
  by (simp add: coloops_def)

lemma dual_rank_coloops: "rank_of (dual (Matroid A)) (coloops (Matroid A)) = 0"
proof -
  let ?c = "gf2_column A" and ?E = "[0..<ncols A]" and ?C = "coloops (Matroid A)"
  have "rank_cols (map ?c (?C @ without ?E ?C)) = length ?C + rank_cols (map ?c (without ?E ?C))"
    by (rule rank_cols_coloops_append) (auto simp: distinct_coloops)
  moreover have "set (map ?c (?C @ without ?E ?C)) = set (map ?c ?E)"
    by (auto simp: set_coloops)
  then have "rank_cols (map ?c (?C @ without ?E ?C)) = rank_cols (map ?c ?E)"
    by (rule rank_cols_cong)
  ultimately show ?thesis by (simp add: rank_of_dual)
qed

lemma dual_rank_single:
  assumes "e \<in> set (groundset (Matroid A))"
  shows "e \<in> set (coloops (Matroid A)) \<longleftrightarrow> rank_of (dual (Matroid A)) [e] \<le> 0"
  using assms by (auto simp: set_coloops rank_of_dual)

lemma zero_flat_of_dual_iff:
  assumes F: "F \<in> set (subseqs (groundset (Matroid A)))"
  shows "rank_of (dual (Matroid A)) F = 0 \<and> is_flat (dual (Matroid A)) F
           \<longleftrightarrow> F = coloops (Matroid A)"
proof
  let ?M = "Matroid A" and ?C = "coloops (Matroid A)"
  let ?E = "groundset ?M"
  have dE: "distinct ?E" by simp
  have dF: "distinct F" using F dE by (rule subseqs_distinctD)
  have FE: "set F \<subseteq> set ?E" using F by (rule subseqs_subset)
  {
    assume zero: "rank_of (dual ?M) F = 0 \<and> is_flat (dual ?M) F"
    have sub: "set F \<subseteq> set ?C"
    proof
      fix e assume e: "e \<in> set F"
      then have "rank_of (dual ?M) [e] \<le> rank_of (dual ?M) F"
        using dF by (intro dual_rank_mono) auto
      then show "e \<in> set ?C" using zero e FE dual_rank_single [of e A] by auto
    qed
    have "set ?C \<subseteq> set F"
    proof
      fix e assume e: "e \<in> set ?C"
      show "e \<in> set F"
      proof (rule ccontr)
        assume notin: "e \<notin> set F"
        have eE: "e \<in> set ?E" using e by (auto simp: set_coloops)
        then have "rank_of (dual ?M) F < rank_of (dual ?M) (F @ [e])"
          using zero notin by (auto simp: is_flat_def list_all_iff)
        moreover have "rank_of (dual ?M) (F @ [e]) \<le> rank_of (dual ?M) ?C"
          using dF notin sub e by (intro dual_rank_mono) (auto simp: distinct_coloops)
        ultimately show False using zero dual_rank_coloops [of A] by simp
      qed
    qed
    with sub have "set F = set ?C" by blast
    then show "F = ?C"
      using subseqs_set_inj [OF dE F coloops_in_subseqs] by simp
  }
  {
    assume eq: "F = ?C"
    have "is_flat (dual ?M) ?C"
      unfolding is_flat_def list_all_iff
    proof (intro ballI)
      fix e assume "e \<in> set (groundset (dual ?M))"
      then have eE: "e \<in> set ?E" by simp
      show "e \<in> set ?C \<or> rank_of (dual ?M) ?C < rank_of (dual ?M) (?C @ [e])"
      proof (cases "e \<in> set ?C")
        case True
        then show ?thesis by simp
      next
        case False
        then have "0 < rank_of (dual ?M) [e]" using dual_rank_single [OF eE] by simp
        moreover have "rank_of (dual ?M) [e] \<le> rank_of (dual ?M) (?C @ [e])"
          using False by (intro dual_rank_mono) (auto simp: distinct_coloops)
        ultimately show ?thesis using dual_rank_coloops [of A] by simp
      qed
    qed
    then show "rank_of (dual ?M) F = 0 \<and> is_flat (dual ?M) F"
      using eq dual_rank_coloops [of A] by simp
  }
qed

lemma flats_dual_zero: "flats (dual (Matroid A)) 0 = [coloops (Matroid A)]"
  unfolding flats_def
proof (rule filter_eq_singleton)
  show "distinct (subseqs (groundset (dual (Matroid A))))"
    by (simp add: distinct_subseqs)
  show "coloops (Matroid A) \<in> set (subseqs (groundset (dual (Matroid A))))"
    using coloops_in_subseqs [of "Matroid A"] by simp
  show "(rank_of (dual (Matroid A)) x = 0 \<and> is_flat (dual (Matroid A)) x)
          = (x = coloops (Matroid A))"
    if "x \<in> set (subseqs (groundset (dual (Matroid A))))" for x
    using that zero_flat_of_dual_iff [of x A] by simp
qed

text \<open>
  Every flat of the dual has its rank between 0 and the rank of the dual, so the co-rank
  loop meets every flat of the dual.
\<close>

lemma dual_rank_in_range:
  assumes "F \<in> set (subseqs (groundset (Matroid A)))"
  shows "rank_of (dual (Matroid A)) F \<in> {0..rank (dual (Matroid A))}"
proof -
  let ?E = "groundset (Matroid A)"
  have dE: "distinct ?E" by simp
  have dF: "distinct F" using assms dE by (rule subseqs_distinctD)
  have FE: "set F \<subseteq> set ?E" using assms by (rule subseqs_subset)
  have "rank_of (dual (Matroid A)) F \<le> rank_of (dual (Matroid A)) ?E"
    using dF dE FE by (rule dual_rank_mono)
  then show ?thesis using dual_rank_nonneg [OF dF, of A] by (simp add: rank_def)
qed

lemma every_flat_is_visited:
  assumes "F \<in> set (subseqs (groundset (Matroid A)))" "is_flat (dual (Matroid A)) F"
  shows "\<exists>co_rank \<in> {0..rank (dual (Matroid A))}. F \<in> set (flats (dual (Matroid A)) co_rank)"
  using assms dual_rank_in_range [OF assms(1)] by (auto simp: flats_def)

text \<open>
  A sub-matroid of rank zero with two or more elements is never connected: each of its
  elements is a loop, and a loop is a component of its own.
\<close>

lemma rank_zero_not_connected:
  assumes "rank (delete (Matroid A) F) = 0" "2 \<le> length (groundset (delete (Matroid A) F))"
  shows "\<not> is_connected (delete (Matroid A) F)"
proof -
  let ?N = "delete (Matroid A) F"
  let ?E = "groundset ?N"
  have r: "rank_of ?N = rank_of (Matroid A)" by (simp add: delete_def)
  obtain a rest where E: "?E = a # rest" and rest: "rest \<noteq> []"
    using assms(2) by (cases ?E; cases "tl ?E") auto
  have zero: "rank_of (Matroid A) ?E = 0" using assms(1) r by (simp add: rank_def)
  have "rank_of (Matroid A) [a] \<le> rank_of (Matroid A) ?E"
    by (rule rank_of_mono) (simp add: E)
  then have a0: "rank_of (Matroid A) [a] = 0" using zero by simp
  have "rank_of (Matroid A) (without ?E [a]) \<le> rank_of (Matroid A) ?E"
    by (rule rank_of_mono) auto
  then have b0: "rank_of (Matroid A) (without ?E [a]) = 0" using zero by simp
  have "[a] \<in> set (subseqs ?E)" unfolding E using Nil_in_subseqs [of rest] by (simp add: Let_def image_iff)
  moreover have "[a] \<noteq> ?E" using E rest by simp
  ultimately have "list_ex (\<lambda>X. X \<noteq> [] \<and> X \<noteq> ?E \<and>
        rank_of ?N X + rank_of ?N (without ?E X) = rank_of ?N ?E) (subseqs ?E)"
    unfolding list_ex_iff using a0 b0 zero r by (intro bexI [of _ "[a]"]) auto
  then show ?thesis by (simp add: is_connected_def Let_def)
qed

section \<open>The loops of the feasibility test\<close>

lemma co_flats_loop_None_iff:
  "co_flats_loop M s Fs = None \<longleftrightarrow> \<not> (\<exists>F \<in> set Fs. disqualifies M s F)"
  by (induction Fs) (auto simp: disqualifies_def Let_def)

lemma co_flats_loop_Some:
  "co_flats_loop M s Fs = Some b \<Longrightarrow> b = False"
  by (induction Fs) (auto simp: Let_def split: if_splits)

lemma co_flats_loop_cases:
  "co_flats_loop M s Fs = (if \<exists>F \<in> set Fs. disqualifies M s F then Some False else None)"
proof (cases "co_flats_loop M s Fs")
  case None
  then show ?thesis using co_flats_loop_None_iff [of M s Fs] by simp
next
  case (Some b)
  then have "b = False" by (rule co_flats_loop_Some)
  moreover have "\<exists>F \<in> set Fs. disqualifies M s F"
    using Some co_flats_loop_None_iff [of M s Fs] by auto
  ultimately show ?thesis using Some by simp
qed

lemma co_rank_loop_False_iff:
  "co_rank_loop M fl s ks = False \<longleftrightarrow> (\<exists>k \<in> set ks. \<exists>F \<in> set (fl k). disqualifies M s F)"
  by (induction ks) (simp_all add: co_flats_loop_cases)

lemma co_flats_loop_skip:
  assumes "length (groundset (delete M F)) = length (groundset M)"
  shows "co_flats_loop M s (F # rest) = co_flats_loop M s rest"
  using assms by (simp add: Let_def)

section \<open>The partition key and the lines of the input\<close>

lemma fold_max_eq: "fold max xs (x::nat) = Max (set (x # xs))"
proof (induction xs arbitrary: x)
  case Nil
  then show ?case by simp
next
  case (Cons y ys)
  have "fold max (y # ys) x = Max (set (max y x # ys))" using Cons by simp
  also have "\<dots> = Max (set (x # y # ys))"
    by (cases ys) (simp_all add: max.commute max.assoc max.left_commute)
  finally show ?case .
qed

lemma py_max_eq: "xs \<noteq> [] \<Longrightarrow> py_max xs = Inr (Max (set xs))"
  by (cases xs) (simp_all add: fold_max_eq)

lemma set_degree_sequence: "set (degree_sequence g) = degree g ` {..<order g}"
  by (auto simp: degree_sequence_def)

lemma count_list_rev_sort: "count_list (rev (sort xs)) i = count_list xs i"
  by (metis count_mset mset_rev mset_sort)

lemma count_list_map_filter: "count_list (map f xs) i = length (filter (\<lambda>v. f v = i) xs)"
  by (induction xs) auto

lemma length_degree_sequence: "length (degree_sequence g) = order g"
  by (simp add: degree_sequence_def)

lemma count_degree_sequence:
  "count_list (degree_sequence g) i = card {v. v < order g \<and> degree g v = i}"
proof -
  have "count_list (degree_sequence g) i = count_list (map (degree g) [0..<order g]) i"
    unfolding degree_sequence_def by (rule count_list_rev_sort)
  also have "\<dots> = length (filter (\<lambda>v. degree g v = i) [0..<order g])"
    by (rule count_list_map_filter)
  also have "\<dots> = card ({v. degree g v = i} \<inter> set [0..<order g])"
    by (simp add: distinct_length_filter)
  also have "{v. degree g v = i} \<inter> set [0..<order g] = {v. v < order g \<and> degree g v = i}"
    by auto
  finally show ?thesis .
qed

lemma graph_partition_eq:
  assumes "0 < order g"
  shows "graph_partition (degree_sequence g)
           = Inr (map (\<lambda>i. card {v. v < order g \<and> degree g v = i})
                    [2..<Max (degree g ` {..<order g}) + 1])"
proof -
  have ne: "degree_sequence g \<noteq> []"
    using assms length_degree_sequence [of g] by auto
  show ?thesis
    unfolding graph_partition_def py_max_eq [OF ne] set_degree_sequence
    by (simp add: count_degree_sequence)
qed

lemma degree_relabel:
  assumes inj: "inj_on f {..<order g}"
    and wf: "list_all (\<lambda>(a, b). a < order g \<and> b < order g) (edges g)"
    and v: "v < order g"
  shows "degree (relabel f g) (f v) = degree g v"
proof -
  have eq: "f a = f v \<longleftrightarrow> a = v" if "a < order g" for a
    using inj v that by (auto dest: inj_onD)
  have 1: "filter (\<lambda>(a, b). a = f v) (map (\<lambda>(a, b). (f a, f b)) (edges g))
             = map (\<lambda>(a, b). (f a, f b)) (filter (\<lambda>(a, b). a = v) (edges g))"
    unfolding filter_map
    by (rule arg_cong [where f = "map _"], rule filter_cong)
       (use wf eq in \<open>auto simp: list_all_iff\<close>)
  have 2: "filter (\<lambda>(a, b). b = f v) (map (\<lambda>(a, b). (f a, f b)) (edges g))
             = map (\<lambda>(a, b). (f a, f b)) (filter (\<lambda>(a, b). b = v) (edges g))"
    unfolding filter_map
    by (rule arg_cong [where f = "map _"], rule filter_cong)
       (use wf eq in \<open>auto simp: list_all_iff\<close>)
  show ?thesis by (simp add: degree_def relabel_def 1 2)
qed

lemma degree_sequence_relabel:
  assumes perm: "mset (map f [0..<order g]) = mset [0..<order g]"
    and wf: "list_all (\<lambda>(a, b). a < order g \<and> b < order g) (edges g)"
  shows "degree_sequence (relabel f g) = degree_sequence g"
proof -
  let ?n = "order g"
  have "distinct (map f [0..<?n])"
    using perm by (metis distinct_upt mset_eq_imp_distinct_iff)
  then have inj: "inj_on f {..<?n}" by (simp add: distinct_map atLeast0LessThan)
  have "mset (map (degree (relabel f g)) [0..<?n])
          = image_mset (degree (relabel f g)) (mset (map f [0..<?n]))"
    using perm by simp
  also have "\<dots> = mset (map (\<lambda>v. degree (relabel f g) (f v)) [0..<?n])"
    by (simp add: multiset.map_comp comp_def)
  also have "map (\<lambda>v. degree (relabel f g) (f v)) [0..<?n] = map (degree g) [0..<?n]"
    by (rule map_cong) (use degree_relabel [OF inj wf] in auto)
  finally have "mset (map (degree (relabel f g)) [0..<?n]) = mset (map (degree g) [0..<?n])" .
  then have "sort (map (degree (relabel f g)) [0..<?n]) = sort (map (degree g) [0..<?n])"
    by (metis mset_sort properties_for_sort sorted_sort)
  then show ?thesis by (simp add: degree_sequence_def relabel_def)
qed

lemma length_filter_last:
  assumes "line \<noteq> []" "last line \<in> set (butlast line)"
  shows "length (filter (\<lambda>c. c \<noteq> last line) line) < length (butlast line)"
proof -
  have line: "line = butlast line @ [last line]" using assms(1) by simp
  have "length (filter (\<lambda>c. c \<noteq> last line) (butlast line)) < length (butlast line)"
    by (rule length_filter_less [OF assms(2)]) simp
  moreover have "filter (\<lambda>c. c \<noteq> last line) line = filter (\<lambda>c. c \<noteq> last line) (butlast line)"
    by (subst line) simp
  ultimately show ?thesis by simp
qed

lemma filter_last_butlast:
  assumes "line \<noteq> []" "last line \<notin> set (butlast line)"
  shows "filter (\<lambda>c. c \<noteq> last line) line = butlast line"
proof -
  have line: "line = butlast line @ [last line]" using assms(1) by simp
  have "filter (\<lambda>c. c \<noteq> last line) (butlast line) = butlast line"
    using assms(2) by (auto simp: filter_id_conv)
  moreover have "filter (\<lambda>c. c \<noteq> last line) line = filter (\<lambda>c. c \<noteq> last line) (butlast line)"
    by (subst line) simp
  ultimately show ?thesis by simp
qed

text \<open>A file whose graphs are all rejected leaves the output as it was.\<close>

lemma line_body_rejected:
  assumes "g6_string_of line = Inr g6_string" "from_graph6 g6_string = Inr my_graph"
    and "\<not> no_rigid_subchains my_graph 3"
  shows "fst (line_body from_graph6 automorphism_orbits graph_write out line) = out"
  using assms by (auto simp: line_body_def split: sum.splits)

lemma graphs_from_txt_rejected:
  assumes "\<And>line. line \<in> set infile \<Longrightarrow>
             \<exists>g6_string my_graph. g6_string_of line = Inr g6_string
               \<and> from_graph6 g6_string = Inr my_graph \<and> \<not> no_rigid_subchains my_graph 3"
  shows "fst (graphs_from_txt from_graph6 automorphism_orbits infile graph_write out) = out"
  using assms
proof (induction infile)
  case Nil
  then show ?case by simp
next
  case (Cons line infile)
  obtain g6_string my_graph where l: "g6_string_of line = Inr g6_string"
      "from_graph6 g6_string = Inr my_graph" "\<not> no_rigid_subchains my_graph 3"
    using Cons.prems [of line] by auto
  have same: "fst (line_body from_graph6 automorphism_orbits graph_write out line) = out"
    using l by (rule line_body_rejected)
  obtain out' err where r: "line_body from_graph6 automorphism_orbits graph_write out line
      = (out', err)" by (cases "line_body from_graph6 automorphism_orbits graph_write out line")
  then have "out' = out" using same by simp
  moreover have "fst (graphs_from_txt from_graph6 automorphism_orbits infile graph_write out) = out"
    using Cons by simp
  ultimately show ?case using r by (cases err) simp_all
qed

section \<open>Properties of the feasibility test\<close>

text \<open>
  C1. For the matroid \<open>M\<close> of a graph's incidence matrix over the two-element field and
  every screw system, \<open>no_rigid_subchains\<close> returns false if and only if there are a
  co-rank between 0 and the rank of the dual of \<open>M\<close> and a flat \<open>F\<close> of the dual of that
  rank such that the sub-matroid left by deleting \<open>F\<close> is connected, has mobility
  \<open>screw_system * (sub_rank - sub_size) + sub_size \<le> 0\<close> and has fewer elements than \<open>M\<close>;
  otherwise it returns true.
\<close>

theorem no_rigid_subchains_false_iff:
  fixes my_graph :: graph and screw_system :: int
  defines "M \<equiv> Matroid (incidence_matrix my_graph)"
  shows "no_rigid_subchains my_graph screw_system = False \<longleftrightarrow>
     (\<exists>co_rank \<in> {0..rank (dual M)}. \<exists>F \<in> set (flats (dual M) co_rank).
        is_connected (delete M F)
        \<and> screw_system * (rank (delete M F) - int (length (groundset (delete M F))))
            + int (length (groundset (delete M F))) \<le> 0
        \<and> length (groundset (delete M F)) < length (groundset M))"
  unfolding no_rigid_subchains_def M_def Let_def co_rank_loop_False_iff disqualifies_def
    mobility_def
  by simp

theorem no_rigid_subchains_false_iff_witness:
  "no_rigid_subchains tri_pendant 3 = False
   \<and> (\<exists>co_rank \<in> {0..rank (dual (Matroid (incidence_matrix tri_pendant)))}.
        \<exists>F \<in> set (flats (dual (Matroid (incidence_matrix tri_pendant))) co_rank).
          is_connected (delete (Matroid (incidence_matrix tri_pendant)) F)
          \<and> 3 * (rank (delete (Matroid (incidence_matrix tri_pendant)) F)
                  - int (length (groundset (delete (Matroid (incidence_matrix tri_pendant)) F))))
              + int (length (groundset (delete (Matroid (incidence_matrix tri_pendant)) F))) \<le> 0
          \<and> length (groundset (delete (Matroid (incidence_matrix tri_pendant)) F))
              < length (groundset (Matroid (incidence_matrix tri_pendant))))"
proof -
  have "no_rigid_subchains tri_pendant 3 = False" by code_simp
  then show ?thesis using no_rigid_subchains_false_iff [of tri_pendant 3] by blast
qed



text \<open>
  C4. The cycle matroid of the four-bar linkage has four elements and rank three, and
  the feasibility test with screw system 3 accepts it: \<open>no_rigid_subchains\<close> returns
  true.
\<close>

theorem four_bar_no_rigid_subchains:
  "length (groundset (Matroid (incidence_matrix four_bar))) = 4
   \<and> rank (Matroid (incidence_matrix four_bar)) = 3
   \<and> no_rigid_subchains four_bar 3 = True"
  by code_simp

text \<open>
  C2, as the code has it. At co-rank 0 the dual matroid has exactly one flat, the set of
  the coloops of \<open>M\<close> (the elements whose removal lowers the rank; the bridges of the
  graph), which is the empty flat exactly when \<open>M\<close> has no coloop. Deleting the empty flat
  gives back the whole matroid \<open>M\<close>, and the inner loop always skips that candidate, by
  the strict size inequality. So whenever \<open>no_rigid_subchains\<close> returns false, it does so
  for a non-empty flat whose deletion leaves a connected proper sub-matroid of
  non-positive mobility: the whole matroid is never by itself the cause.
\<close>

theorem co_rank_zero_flat:
  fixes my_graph :: graph and screw_system :: int
  defines "M \<equiv> Matroid (incidence_matrix my_graph)"
  shows "flats (dual M) 0 = [coloops M]
    \<and> (flats (dual M) 0 = [[]] \<longleftrightarrow> coloops M = [])
    \<and> delete M [] = M
    \<and> (\<forall>rest. co_flats_loop M screw_system ([] # rest) = co_flats_loop M screw_system rest)
    \<and> (no_rigid_subchains my_graph screw_system = False \<longrightarrow>
         (\<exists>co_rank \<in> {0..rank (dual M)}. \<exists>F \<in> set (flats (dual M) co_rank).
            F \<noteq> [] \<and> length (groundset (delete M F)) < length (groundset M)
            \<and> is_connected (delete M F)
            \<and> mobility (rank (delete M F)) (int (length (groundset (delete M F))))
                  screw_system \<le> 0))"
proof -
  have 1: "flats (dual M) 0 = [coloops M]" unfolding M_def by (rule flats_dual_zero)
  have 3: "delete M [] = M" by (rule delete_Nil)
  have 4: "co_flats_loop M screw_system ([] # rest) = co_flats_loop M screw_system rest" for rest
    by (rule co_flats_loop_skip) (simp add: 3)
  have 5: "\<exists>co_rank \<in> {0..rank (dual M)}. \<exists>F \<in> set (flats (dual M) co_rank).
            F \<noteq> [] \<and> length (groundset (delete M F)) < length (groundset M)
            \<and> is_connected (delete M F)
            \<and> mobility (rank (delete M F)) (int (length (groundset (delete M F))))
                  screw_system \<le> 0"
    if "no_rigid_subchains my_graph screw_system = False"
  proof -
    from that obtain k F where k: "k \<in> {0..rank (dual M)}" and F: "F \<in> set (flats (dual M) k)"
      and d: "disqualifies M screw_system F"
      unfolding no_rigid_subchains_def M_def Let_def co_rank_loop_False_iff by auto
    have "F \<noteq> []" using d 3 by (auto simp: disqualifies_def)
    then show ?thesis using k F d by (auto simp: disqualifies_def)
  qed
  show ?thesis using 1 3 4 5 by simp
qed

theorem co_rank_zero_flat_witness:
  "no_rigid_subchains tri_pendant 3 = False
   \<and> flats (dual (Matroid (incidence_matrix tri_pendant))) 0
       = [coloops (Matroid (incidence_matrix tri_pendant))]
   \<and> coloops (Matroid (incidence_matrix tri_pendant)) = [3]
   \<and> (\<exists>co_rank \<in> {0..rank (dual (Matroid (incidence_matrix tri_pendant)))}.
        \<exists>F \<in> set (flats (dual (Matroid (incidence_matrix tri_pendant))) co_rank).
          F \<noteq> []
          \<and> length (groundset (delete (Matroid (incidence_matrix tri_pendant)) F))
              < length (groundset (Matroid (incidence_matrix tri_pendant)))
          \<and> is_connected (delete (Matroid (incidence_matrix tri_pendant)) F)
          \<and> mobility (rank (delete (Matroid (incidence_matrix tri_pendant)) F))
               (int (length (groundset (delete (Matroid (incidence_matrix tri_pendant)) F)))) 3
              \<le> 0)
   \<and> coloops (Matroid (incidence_matrix four_bar)) = []
   \<and> flats (dual (Matroid (incidence_matrix four_bar))) 0 = [[]]"
proof -
  have a: "no_rigid_subchains tri_pendant 3 = False" by code_simp
  have b: "coloops (Matroid (incidence_matrix tri_pendant)) = [3]" by code_simp
  have c: "coloops (Matroid (incidence_matrix four_bar)) = []" by code_simp
  show ?thesis
    using co_rank_zero_flat [of tri_pendant 3] co_rank_zero_flat [of four_bar 3] a b c
    by simp
qed

text \<open>
  For the triangle with a pendant edge the flat of co-rank 0 is not the empty one: it is
  the pendant edge, its deletion leaves the triangle, a proper sub-matroid, and the loop
  returns false on it.
\<close>

theorem co_rank_zero_flat_counterexample:
  "flats (dual (Matroid (incidence_matrix tri_pendant))) 0 = [[3]]
   \<and> flats (dual (Matroid (incidence_matrix tri_pendant))) 0 \<noteq> [[]]
   \<and> groundset (delete (Matroid (incidence_matrix tri_pendant)) [3]) = [0, 1, 2]
   \<and> co_flats_loop (Matroid (incidence_matrix tri_pendant)) 3
        (flats (dual (Matroid (incidence_matrix tri_pendant))) 0) = Some False"
  by code_simp

text \<open>
  C5. For a binary matroid \<open>M\<close> on the groundset \<open>E\<close>, the dual has the rank function
  \<open>|S| - rank(E) + rank(E \ S)\<close> on every subset \<open>S\<close> of \<open>E\<close>, and the rank of the dual's
  groundset, which bounds the co-rank loop, is \<open>|E| - rank(M)\<close>.
\<close>

theorem dual_rank_formula:
  fixes A :: matrix
  defines "M \<equiv> Matroid A"
  assumes "distinct S" "set S \<subseteq> set (groundset M)"
  shows "rank_of (dual M) S
           = int (card (set S)) - rank M + rank_of M (without (groundset M) S)
         \<and> set (without (groundset M) S) = set (groundset M) - set S
         \<and> rank (dual M) = int (card (set (groundset M))) - rank M"
proof -
  have "rank (dual M) = int (length (groundset M)) - rank M"
    unfolding M_def rank_def by (simp add: rank_of_dual without_def)
  moreover have "length (groundset M) = card (set (groundset M))"
    unfolding M_def by simp
  ultimately show ?thesis
    using assms(2) by (simp add: rank_of_dual rank_def distinct_card)
qed

theorem dual_rank_formula_witness:
  "distinct [0::nat, 2]
   \<and> set [0::nat, 2] \<subseteq> set (groundset (Matroid (incidence_matrix four_bar)))
   \<and> rank_of (dual (Matroid (incidence_matrix four_bar))) [0, 2] = 2 - 3 + 2
   \<and> rank (dual (Matroid (incidence_matrix four_bar))) = 4 - 3"
proof -
  have h1: "distinct [0::nat, 2]" by simp
  have h2: "set [0::nat, 2] \<subseteq> set (groundset (Matroid (incidence_matrix four_bar)))"
    by code_simp
  have v1: "rank (Matroid (incidence_matrix four_bar)) = 3" by code_simp
  have v2: "rank_of (Matroid (incidence_matrix four_bar))
              (without (groundset (Matroid (incidence_matrix four_bar))) [0, 2]) = 2"
    by code_simp
  have v3: "card (set (groundset (Matroid (incidence_matrix four_bar)))) = 4"
    by code_simp
  show ?thesis
    using dual_rank_formula [OF h1 h2] h1 h2 v1 v2 v3 by simp
qed

text \<open>
  C7. The verdict is a function of the graph and the screw system alone. The matroid is a
  value: \<open>delete\<close> and \<open>dual\<close> build new matroids and nothing in the loops assigns to the
  input. The one thing that can differ between two invocations is the order in which the
  library enumerates the flats of a co-rank; whatever that order, the loops return the
  value of \<open>no_rigid_subchains\<close>.
\<close>

theorem verdict_independent_of_enumeration:
  fixes my_graph :: graph and screw_system :: int
  defines "M \<equiv> Matroid (incidence_matrix my_graph)"
  assumes "\<forall>co_rank. set (co_flats_of co_rank) = set (flats (dual M) co_rank)"
    and "set co_ranks = {0..rank (dual M)}"
  shows "co_rank_loop M co_flats_of screw_system co_ranks
           = no_rigid_subchains my_graph screw_system"
proof -
  have "(co_rank_loop M co_flats_of screw_system co_ranks = False)
          = (no_rigid_subchains my_graph screw_system = False)"
    unfolding no_rigid_subchains_def M_def Let_def co_rank_loop_False_iff
    using assms by (simp add: M_def)
  then show ?thesis by auto
qed

theorem verdict_independent_of_enumeration_witness:
  "co_rank_loop (Matroid (incidence_matrix tri_pendant))
      (\<lambda>co_rank. rev (flats (dual (Matroid (incidence_matrix tri_pendant))) co_rank)) 3
      (rev [0..rank (dual (Matroid (incidence_matrix tri_pendant)))])
     = no_rigid_subchains tri_pendant 3
   \<and> no_rigid_subchains tri_pendant 3 = False"
proof -
  have a: "no_rigid_subchains tri_pendant 3 = False" by code_simp
  have h1: "\<forall>co_rank. set (rev (flats (dual (Matroid (incidence_matrix tri_pendant))) co_rank))
              = set (flats (dual (Matroid (incidence_matrix tri_pendant))) co_rank)"
    by simp
  have h2: "set (rev [0..rank (dual (Matroid (incidence_matrix tri_pendant)))])
              = {0..rank (dual (Matroid (incidence_matrix tri_pendant)))}"
    by simp
  show ?thesis
    using verdict_independent_of_enumeration [OF h1 h2, of 3] a by simp
qed

section \<open>Properties of the classifier\<close>

text \<open>
  C6. For a graph with at least one vertex whose largest vertex degree is \<open>d \<ge> 2\<close>, the
  partition key is the list whose entry for each degree \<open>i\<close> from 2 up to \<open>d\<close> is the
  number of vertices of degree \<open>i\<close>; vertices of degree 0 or 1 have no entry. The key of
  a relabelled graph (the vertices renamed by a permutation of \<open>0, ..., order - 1\<close>) is
  the same.
\<close>

theorem partition_key:
  assumes "0 < order g" and "d = Max (degree g ` {..<order g})" and "2 \<le> d"
    and "mset (map f [0..<order g]) = mset [0..<order g]"
    and "list_all (\<lambda>(a, b). a < order g \<and> b < order g) (edges g)"
  shows "graph_partition (degree_sequence g)
           = Inr (map (\<lambda>i. card {v. v < order g \<and> degree g v = i}) [2..<d + 1])
         \<and> graph_partition (degree_sequence (relabel f g))
             = graph_partition (degree_sequence g)"
  using assms by (simp add: graph_partition_eq degree_sequence_relabel)

theorem partition_key_witness:
  "0 < order diamond \<and> (3::nat) = Max (degree diamond ` {..<order diamond}) \<and> (2::nat) \<le> 3
   \<and> mset (map (\<lambda>v. (v + 1) mod 4) [0..<order diamond]) = mset [0..<order diamond]
   \<and> list_all (\<lambda>(a, b). a < order diamond \<and> b < order diamond) (edges diamond)
   \<and> degree_sequence diamond = [3, 3, 2, 2]
   \<and> map (\<lambda>i. card {v. v < order diamond \<and> degree diamond v = i}) [2..<3 + 1] = [2, 2]
   \<and> graph_partition (degree_sequence (relabel (\<lambda>v. (v + 1) mod 4) diamond)) = Inr [2, 2]"
proof -
  have h1: "0 < order diamond" by code_simp
  have h2: "(3::nat) = Max (degree diamond ` {..<order diamond})" by code_simp
  have h3: "(2::nat) \<le> 3" by simp
  have h4: "mset (map (\<lambda>v. (v + 1) mod 4) [0..<order diamond]) = mset [0..<order diamond]"
    by code_simp
  have h5: "list_all (\<lambda>(a, b). a < order diamond \<and> b < order diamond) (edges diamond)"
    by code_simp
  have v1: "degree_sequence diamond = [3, 3, 2, 2]" by code_simp
  have v2: "graph_partition (degree_sequence diamond) = Inr [2, 2]" by code_simp
  show ?thesis
    using partition_key [OF h1 h2 h3 h4 h5] h1 h2 h4 h5 v1 v2 by simp
qed

text \<open>
  C8. For a line that decodes to a graph: when \<open>no_rigid_subchains\<close> returns false on
  the graph, the line appends nothing, neither the graph encoding nor an orbit-count
  record, and the run does not depend on the orbits at all; any append means that the
  graph passed the test; and when it passes, with a partition key and an orbit count,
  exactly the encoding and the orbit-count record are appended, in that order.
\<close>

theorem assur_label_only_when_feasible:
  assumes "g6_string_of line = Inr g6_string" and "from_graph6 g6_string = Inr my_graph"
  shows "(\<not> no_rigid_subchains my_graph 3 \<longrightarrow>
            fst (line_body from_graph6 automorphism_orbits graph_write out line) = out
            \<and> line_body from_graph6 automorphism_orbits graph_write out line
                = line_body from_graph6 other_orbits graph_write out line)
       \<and> (fst (line_body from_graph6 automorphism_orbits graph_write out line) \<noteq> out \<longrightarrow>
            no_rigid_subchains my_graph 3)
       \<and> (no_rigid_subchains my_graph 3
            \<and> graph_partition (degree_sequence my_graph) = Inr key
            \<and> number_assur automorphism_orbits my_graph = Inr assur_per_graph \<longrightarrow>
            line_body from_graph6 automorphism_orbits graph_write out line
              = (out @ [(graph_write @ ''baranov_'' @ str_list key, g6_string @ ''\<newline>''),
                        (graph_write @ ''assur_'' @ str_list key,
                         assur_per_graph @ ''\<newline>'')], None))"
  using assms by (auto simp: line_body_def Let_def split: sum.splits)

theorem assur_label_only_when_feasible_witness:
  "g6_string_of ''C}\<newline>'' = Inr ''C}'' \<and> sample_graph6 ''C}'' = Inr diamond
   \<and> \<not> no_rigid_subchains diamond 3
   \<and> fst (line_body sample_graph6 (\<lambda>g. [[0, 1], [2, 3]]) ''my_output/'' [] ''C}\<newline>'') = []
   \<and> g6_string_of ''Cl\<newline>'' = Inr ''Cl'' \<and> sample_graph6 ''Cl'' = Inr four_bar
   \<and> no_rigid_subchains four_bar 3
   \<and> line_body sample_graph6 (\<lambda>g. [[0, 1, 2, 3]]) ''my_output/'' [] ''Cl\<newline>''
       = ([(''my_output/baranov_[4]'', ''Cl\<newline>''), (''my_output/assur_[4]'', ''1\<newline>'')],
          None)"
proof -
  have a1: "g6_string_of ''C}\<newline>'' = Inr ''C}''" by code_simp
  have a2: "sample_graph6 ''C}'' = Inr diamond" by code_simp
  have a3: "\<not> no_rigid_subchains diamond 3" by code_simp
  have b1: "g6_string_of ''Cl\<newline>'' = Inr ''Cl''" by code_simp
  have b2: "sample_graph6 ''Cl'' = Inr four_bar" by code_simp
  have b3: "no_rigid_subchains four_bar 3" by code_simp
  have b4: "graph_partition (degree_sequence four_bar) = Inr [4]" by code_simp
  have b5: "number_assur (\<lambda>g. [[0, 1, 2, 3]]) four_bar = Inr ''1''" by code_simp
  have b6: "str_list [4] = ''[4]''" by code_simp
  show ?thesis
    using assur_label_only_when_feasible [of "''C}\<newline>''" "''C}''" sample_graph6 diamond
        "\<lambda>g. [[0, 1], [2, 3]]" "''my_output/''" "[]"]
      assur_label_only_when_feasible [of "''Cl\<newline>''" "''Cl''" sample_graph6 four_bar
        "\<lambda>g. [[0, 1, 2, 3]]" "''my_output/''" "[]" _ "[4]" "''1''"]
      a1 a2 a3 b1 b2 b3 b4 b5 b6
    by simp
qed

text \<open>
  C9. The string handed to the decoder is the line without every occurrence of its last
  character: the run depends on the decoder at this string only. When the last
  character does not occur earlier, that is the line without its last character. When
  it occurs earlier, interior characters are lost as well: the string is shorter than
  the line without its last character, differs from it and from the whole line, and,
  for a decoder under which the graph that the line encodes has no second encoding,
  decoding it does not give that graph.
\<close>

theorem g6_string_drops_every_last_character:
  assumes "line \<noteq> []"
  shows "g6_string_of line = Inr (filter (\<lambda>c. c \<noteq> last line) line)
       \<and> (from_graph6 (filter (\<lambda>c. c \<noteq> last line) line)
              = other_graph6 (filter (\<lambda>c. c \<noteq> last line) line) \<longrightarrow>
            line_body from_graph6 automorphism_orbits graph_write out line
              = line_body other_graph6 automorphism_orbits graph_write out line)
       \<and> (last line \<notin> set (butlast line) \<longrightarrow> g6_string_of line = Inr (butlast line))
       \<and> (last line \<in> set (butlast line) \<longrightarrow>
            (\<exists>g6_string. g6_string_of line = Inr g6_string
               \<and> last line \<notin> set g6_string
               \<and> length g6_string < length (butlast line)
               \<and> g6_string \<noteq> butlast line \<and> g6_string \<noteq> line
               \<and> (\<forall>payload \<in> {butlast line, line}. \<forall>g.
                     from_graph6 payload = Inr g
                     \<and> (\<forall>s. from_graph6 s = Inr g \<longrightarrow> s = payload)
                     \<longrightarrow> from_graph6 g6_string \<noteq> from_graph6 payload)))"
proof -
  let ?s = "filter (\<lambda>c. c \<noteq> last line) line"
  have 1: "g6_string_of line = Inr ?s" using assms by (simp add: g6_string_of_def)
  have 2: "line_body from_graph6 automorphism_orbits graph_write out line
             = line_body other_graph6 automorphism_orbits graph_write out line"
    if "from_graph6 ?s = other_graph6 ?s"
    using that by (simp add: line_body_def 1)
  have 3: "g6_string_of line = Inr (butlast line)" if "last line \<notin> set (butlast line)"
    using filter_last_butlast [OF assms that] 1 by simp
  have 4: "last line \<notin> set ?s \<and> length ?s < length (butlast line)
           \<and> ?s \<noteq> butlast line \<and> ?s \<noteq> line
           \<and> (\<forall>payload \<in> {butlast line, line}. \<forall>g.
                 from_graph6 payload = Inr g \<and> (\<forall>s. from_graph6 s = Inr g \<longrightarrow> s = payload)
                 \<longrightarrow> from_graph6 ?s \<noteq> from_graph6 payload)"
    if "last line \<in> set (butlast line)"
  proof -
    have len: "length ?s < length (butlast line)" by (rule length_filter_last [OF assms that])
    then have ne1: "?s \<noteq> butlast line" by auto
    have ne2: "?s \<noteq> line" using len by (metis length_butlast less_imp_diff_less less_irrefl)
    show ?thesis using len ne1 ne2 by auto
  qed
  show ?thesis using 1 2 3 4 by blast
qed

theorem g6_string_drops_every_last_character_witness:
  "''Dww'' \<noteq> [] \<and> last ''Dww'' \<in> set (butlast ''Dww'')
   \<and> g6_string_of ''Dww'' = Inr ''D''
   \<and> sample_graph6 ''Dww'' = Inr k4_isolated
   \<and> sample_graph6 ''D'' \<noteq> sample_graph6 ''Dww''
   \<and> line_body sample_graph6 (\<lambda>g. [[0, 1, 2, 4], [3]]) ''my_output/'' [] ''Dww''
       = ([], Some RuntimeError)
   \<and> ''Cl\<newline>'' \<noteq> [] \<and> last ''Cl\<newline>'' \<notin> set (butlast ''Cl\<newline>'')
   \<and> g6_string_of ''Cl\<newline>'' = Inr ''Cl''"
proof -
  have h1: "''Dww'' \<noteq> []" by simp
  have h2: "last ''Dww'' \<in> set (butlast ''Dww'')" by simp
  have h3: "''Cl\<newline>'' \<noteq> []" by simp
  have h4: "last ''Cl\<newline>'' \<notin> set (butlast ''Cl\<newline>'')" by simp
  have v1: "sample_graph6 ''Dww'' = Inr k4_isolated" by code_simp
  have v2: "sample_graph6 ''D'' = Inl RuntimeError" by code_simp
  have v3: "line_body sample_graph6 (\<lambda>g. [[0, 1, 2, 4], [3]]) ''my_output/'' [] ''Dww''
              = ([], Some RuntimeError)" by code_simp
  show ?thesis
    using g6_string_drops_every_last_character [OF h1, of sample_graph6 sample_graph6]
      g6_string_drops_every_last_character [OF h3, of sample_graph6 sample_graph6]
      h1 h2 h3 h4 v1 v2 v3
    by simp
qed

text \<open>
  C10. For a graph without vertices the degree sequence is empty, \<open>max\<close> raises
  \<open>ValueError\<close> and no partition key is produced, so the run over its line ends with
  that exception and appends nothing; a partition key exists exactly for the graphs
  with at least one vertex.
\<close>

theorem empty_graph_has_no_partition:
  "(order g = 0 \<longrightarrow>
      degree_sequence g = [] \<and> graph_partition (degree_sequence g) = Inl ValueError)
   \<and> ((\<exists>key. graph_partition (degree_sequence g) = Inr key) \<longleftrightarrow> 0 < order g)
   \<and> (g6_string_of line = Inr g6_string \<and> from_graph6 g6_string = Inr g \<and> order g = 0 \<longrightarrow>
        line_body from_graph6 automorphism_orbits graph_write out line
          = (out, Some ValueError))"
proof -
  have 1: "degree_sequence g = [] \<and> graph_partition (degree_sequence g) = Inl ValueError"
    if "order g = 0"
    using that by (simp add: degree_sequence_def graph_partition_def)
  have 2: "\<exists>key. graph_partition (degree_sequence g) = Inr key" if "0 < order g"
    using graph_partition_eq [OF that] by blast
  have 3: "line_body from_graph6 automorphism_orbits graph_write out line
             = (out, Some ValueError)"
    if "g6_string_of line = Inr g6_string \<and> from_graph6 g6_string = Inr g \<and> order g = 0"
    using that by (simp add: line_body_def degree_sequence_def graph_partition_def)
  show ?thesis using 1 2 3 by (cases "order g = 0") auto
qed

theorem empty_graph_has_no_partition_witness:
  "order empty_graph = 0 \<and> degree_sequence empty_graph = []
   \<and> graph_partition (degree_sequence empty_graph) = Inl ValueError
   \<and> g6_string_of ''?\<newline>'' = Inr ''?'' \<and> sample_graph6 ''?'' = Inr empty_graph
   \<and> line_body sample_graph6 (\<lambda>g. []) ''my_output/'' [] ''?\<newline>'' = ([], Some ValueError)
   \<and> 0 < order four_bar
   \<and> (\<exists>key. graph_partition (degree_sequence four_bar) = Inr key)"
proof -
  have h1: "order empty_graph = 0" by code_simp
  have h2: "g6_string_of ''?\<newline>'' = Inr ''?''" by code_simp
  have h3: "sample_graph6 ''?'' = Inr empty_graph" by code_simp
  have h4: "0 < order four_bar" by code_simp
  show ?thesis
    using empty_graph_has_no_partition [of empty_graph "''?\<newline>''" "''?''" sample_graph6
        "\<lambda>g. []" "''my_output/''" "[]"]
      empty_graph_has_no_partition [of four_bar]
      h1 h2 h3 h4
    by (simp add: graph_partition_def)
qed

end
